theory Spec2Isabelle
  imports Main "HOL-Library.Char_ord" "HOL-Library.List_Lexorder" "HOL-Library.Product_Lexorder"
    "HOL-Library.Multiset"
begin

section \<open>Data model of the key-value store\<close>

text \<open>
  \<^verbatim>\<open>thrift::Value\<close>: the record stored under a key. \<^verbatim>\<open>version\<close>, \<^verbatim>\<open>ttl\<close>, \<^verbatim>\<open>ttlVersion\<close> and
  \<^verbatim>\<open>hash\<close> are \<^verbatim>\<open>int64_t\<close> in the source; the code only compares and copies them, so they are
  modelled as \<open>int\<close> (no arithmetic, hence no wrap-around). \<^verbatim>\<open>value\<close> and \<^verbatim>\<open>hash\<close> are optional
  thrift fields. Strings are byte strings; \<open>string\<close> with the orders of \<open>Char_ord\<close> and
  \<open>List_Lexorder\<close> is the byte-wise lexicographic order of \<^verbatim>\<open>std::string\<close>.
\<close>

record Value =
  version :: int
  originatorId :: string
  value_opt :: "string option"
  ttl :: int
  ttlVersion :: int
  hash :: "int option"

type_synonym kvmap = "string \<rightharpoonup> Value"

text \<open>
  What the source takes from outside \<^verbatim>\<open>KvStoreUtil.cpp\<close>, as parameters:
  \<^item> \<open>generateHash\<close>: the digest of (version, originatorId, value);
  \<^item> \<open>string_compare\<close>: \<^verbatim>\<open>std::string::compare\<close>, which the C++ standard fixes only up to
    the sign of its result;
  \<^item> \<open>kTtlInfinity\<close>: \<^verbatim>\<open>Constants::kTtlInfinity\<close>, whose value is in \<^verbatim>\<open>Constants.h\<close>;
  \<^item> \<open>regex_match\<close>: whether one pattern of a \<^verbatim>\<open>RegexSet\<close> matches a key.
\<close>

record platform =
  generateHash :: "int \<Rightarrow> string \<Rightarrow> string option \<Rightarrow> int"
  string_compare :: "string \<Rightarrow> string \<Rightarrow> int"
  kTtlInfinity :: int
  regex_match :: "string \<Rightarrow> string \<Rightarrow> bool"

text \<open>
  The contract of \<^verbatim>\<open>std::string::compare\<close>: negative, zero or positive as the first string
  is lexicographically smaller than, equal to or greater than the second.
\<close>

definition conforming :: "(string \<Rightarrow> string \<Rightarrow> int) \<Rightarrow> bool" where
  "conforming cmp = (\<forall>a b. ((cmp a b < 0) = (a < b)) \<and> ((cmp a b = 0) = (a = b)) \<and> ((0 < cmp a b) = (b < a)))"

text \<open>
  The failures of the source as values: reading through \<^verbatim>\<open>kvStoreIt\<close> when it is
  \<^verbatim>\<open>kvStore.end()\<close>, dereferencing an optional thrift field that is not set (thrift throws
  \<^verbatim>\<open>bad_field_access\<close>), and a failed \<^verbatim>\<open>CHECK\<close>.
\<close>

datatype error = InvalidIterator | BadFieldAccess | CheckFailed

section \<open>Filters\<close>

datatype FilterOperator = OR | AND

record KvStoreFilters =
  keyPrefixList :: "string list"
  originatorIds :: "string set"
  filterOperator :: FilterOperator

text \<open>
  Modelled from the spec: \<^verbatim>\<open>RegexSet::match\<close> (declared in \<^verbatim>\<open>openr/common/Util.h\<close>, not part of
  the sources at hand). The filter's \<^verbatim>\<open>keyRegexSet_\<close> is built from \<^verbatim>\<open>keyPrefixList_\<close>, and a key
  matches the set when it matches one of its patterns.
\<close>

definition RegexSet_match :: "platform \<Rightarrow> string list \<Rightarrow> string \<Rightarrow> bool" where
  "RegexSet_match P patterns key = list_ex (\<lambda>p. regex_match P p key) patterns"

definition keyMatchAny :: "platform \<Rightarrow> KvStoreFilters \<Rightarrow> string \<Rightarrow> Value \<Rightarrow> bool" where
  "keyMatchAny P f key value =
     (if keyPrefixList f = [] \<and> originatorIds f = {} then True
      else if keyPrefixList f \<noteq> [] \<and> RegexSet_match P (keyPrefixList f) key then True
      else if originatorIds f \<noteq> {} \<and> originatorId value \<in> originatorIds f then True
      else False)"

definition keyMatchAll :: "platform \<Rightarrow> KvStoreFilters \<Rightarrow> string \<Rightarrow> Value \<Rightarrow> bool" where
  "keyMatchAll P f key value =
     (if keyPrefixList f = [] \<and> originatorIds f = {} then True
      else if keyPrefixList f \<noteq> [] \<and> \<not> RegexSet_match P (keyPrefixList f) key then False
      else if originatorIds f \<noteq> {} \<and> originatorId value \<notin> originatorIds f then False
      else True)"

definition keyMatch :: "platform \<Rightarrow> KvStoreFilters \<Rightarrow> string \<Rightarrow> Value \<Rightarrow> bool" where
  "keyMatch P f key value =
     (if filterOperator f = OR then keyMatchAny P f key value
      else keyMatchAll P f key value)"

section \<open>The merge engine\<close>

text \<open>\<^verbatim>\<open>unordered_map::emplace\<close>: inserts only when the key is not there yet.\<close>

definition emplace :: "kvmap \<Rightarrow> string \<Rightarrow> Value \<Rightarrow> kvmap" where
  "emplace m k v = (case m k of None \<Rightarrow> m(k \<mapsto> v) | Some _ \<Rightarrow> m)"

text \<open>
  The block of \<^verbatim>\<open>mergeKeyValues\<close> that decides \<^verbatim>\<open>updateAllNeeded\<close> and \<^verbatim>\<open>updateTtlNeeded\<close> for an
  incoming record that carries a value. \<open>kvStoreIt\<close> is the result of \<^verbatim>\<open>kvStore.find(key)\<close>
  (\<open>None\<close> for \<^verbatim>\<open>kvStore.end()\<close>). The flags are returned in the order
  (updateAllNeeded, updateTtlNeeded).
\<close>

definition checkUpdateAll ::
  "platform \<Rightarrow> Value \<Rightarrow> Value option \<Rightarrow> int \<Rightarrow> int \<Rightarrow> error + (bool \<times> bool)" where
  "checkUpdateAll P value kvStoreIt newVersion myVersion =
     (case value_opt value of
        None \<Rightarrow> Inr (False, False)
      | Some v \<Rightarrow>
          if newVersion > myVersion then Inr (True, False)
          else (case kvStoreIt of
                  None \<Rightarrow> Inl InvalidIterator
                | Some cur \<Rightarrow>
                    if originatorId value > originatorId cur then Inr (True, False)
                    else if originatorId value = originatorId cur then
                      (case value_opt cur of
                         None \<Rightarrow> Inl BadFieldAccess
                       | Some cv \<Rightarrow>
                           let rc = string_compare P v cv in
                           if rc > 0 then Inr (True, False)
                           else if rc = 0 then Inr (False, ttlVersion value > ttlVersion cur)
                           else Inr (False, False))
                    else Inr (False, False)))"

text \<open>
  The first half of the body of the loop of \<^verbatim>\<open>mergeKeyValues\<close>, down to the second
  \<^verbatim>\<open>Check updateTtl\<close> block: \<open>Inr None\<close> is a \<^verbatim>\<open>continue\<close> (the record is filtered out, its
  ttl is invalid, or it is stale), \<open>Inr (Some (updateAllNeeded, updateTtlNeeded))\<close> the two
  flags.
\<close>

definition updateFlags ::
  "platform \<Rightarrow> KvStoreFilters option \<Rightarrow> string \<Rightarrow> Value \<Rightarrow> Value option \<Rightarrow> error + (bool \<times> bool) option" where
  "updateFlags P filters key value kvStoreIt =
     (if (case filters of None \<Rightarrow> False | Some f \<Rightarrow> \<not> keyMatch P f key value) then Inr None
      else
        let newVersion = version value in
        if ttl value \<noteq> kTtlInfinity P \<and> ttl value \<le> 0 then Inr None
        else
          let myVersion = (case kvStoreIt of None \<Rightarrow> 0 | Some cur \<Rightarrow> version cur) in
          if newVersion < myVersion then Inr None
          else
            (case checkUpdateAll P value kvStoreIt newVersion myVersion of
               Inl e \<Rightarrow> Inl e
             | Inr (updateAllNeeded, updateTtlNeeded) \<Rightarrow>
                 if value_opt value = None \<and>
                    (case kvStoreIt of
                       None \<Rightarrow> False
                     | Some cur \<Rightarrow>
                         version value = version cur \<and>
                         originatorId value = originatorId cur \<and>
                         ttlVersion value > ttlVersion cur)
                 then Inr (Some (updateAllNeeded, True))
                 else Inr (Some (updateAllNeeded, updateTtlNeeded))))"

text \<open>
  One iteration of the loop of \<^verbatim>\<open>mergeKeyValues\<close> over \<^verbatim>\<open>keyVals\<close>, on the pair
  (kvStore, kvUpdates): the flags, then the update of the store and the announcement.
  Every \<^verbatim>\<open>continue\<close> returns the state unchanged.
\<close>

definition mergeStep ::
  "platform \<Rightarrow> KvStoreFilters option \<Rightarrow> string \<times> Value \<Rightarrow> kvmap \<times> kvmap \<Rightarrow> error + (kvmap \<times> kvmap)" where
  "mergeStep P filters kv st =
     (let key = fst kv; value = snd kv; kvStore = fst st; kvUpdates = snd st;
          kvStoreIt = kvStore key in
      case updateFlags P filters key value kvStoreIt of
        Inl e \<Rightarrow> Inl e
      | Inr None \<Rightarrow> Inr st
      | Inr (Some (updateAllNeeded, updateTtlNeeded)) \<Rightarrow>
          if \<not> updateAllNeeded \<and> \<not> updateTtlNeeded then Inr st
          else if updateAllNeeded then
            (if value_opt value = None then Inl CheckFailed
             else
               let newValue = value;
                   stored =
                     (if hash newValue = None
                      then newValue\<lparr>hash :=
                             Some (generateHash P (version value) (originatorId value) (value_opt value))\<rparr>
                      else newValue)
               in Inr (kvStore(key \<mapsto> stored), emplace kvUpdates key value))
          else
            (case kvStoreIt of
               None \<Rightarrow> Inl CheckFailed
             | Some cur \<Rightarrow>
                 Inr (kvStore(key \<mapsto> cur\<lparr>ttl := ttl value, ttlVersion := ttlVersion value\<rparr>),
                      emplace kvUpdates key value)))"

text \<open>
  The loop. \<^verbatim>\<open>keyVals\<close> is an \<^verbatim>\<open>unordered_map\<close>: the list is its iteration order, and its keys
  are distinct. A failure ends the loop. \<^verbatim>\<open>kvStore\<close> is a reference parameter that the
  iterations before the failing one have already written, so a failure carries the store
  as the caller is left with it; the local \<^verbatim>\<open>kvUpdates\<close> is lost. An iteration that fails
  does so before it writes anything.
\<close>

fun mergeLoop ::
  "platform \<Rightarrow> KvStoreFilters option \<Rightarrow> (string \<times> Value) list \<Rightarrow> kvmap \<times> kvmap \<Rightarrow>
     (error \<times> kvmap) + (kvmap \<times> kvmap)" where
  "mergeLoop P filters [] st = Inr st"
| "mergeLoop P filters (kv # rest) st =
     (case mergeStep P filters kv st of
        Inl e \<Rightarrow> Inl (e, fst st)
      | Inr st' \<Rightarrow> mergeLoop P filters rest st')"

text \<open>
  \<^verbatim>\<open>mergeKeyValues(kvStore, keyVals, filters)\<close>: the result is the store after the call (the
  source updates it in place) and the returned \<^verbatim>\<open>kvUpdates\<close>; on a failure, the failure and
  the store after the call.
\<close>

definition mergeKeyValues ::
  "platform \<Rightarrow> kvmap \<Rightarrow> (string \<times> Value) list \<Rightarrow> KvStoreFilters option \<Rightarrow>
     (error \<times> kvmap) + (kvmap \<times> kvmap)" where
  "mergeKeyValues P kvStore keyVals filters = mergeLoop P filters keyVals (kvStore, Map.empty)"

text \<open>
  A sequence of calls on one store, each with its own batch and filters. It ends at the
  first call that fails, with the store that call leaves.
\<close>

fun mergeCalls ::
  "platform \<Rightarrow> kvmap \<Rightarrow> ((string \<times> Value) list \<times> KvStoreFilters option) list \<Rightarrow>
     (error \<times> kvmap) + kvmap" where
  "mergeCalls P kvStore [] = Inr kvStore"
| "mergeCalls P kvStore (c # cs) =
     (case mergeKeyValues P kvStore (fst c) (snd c) of
        Inl e \<Rightarrow> Inl e
      | Inr r \<Rightarrow> mergeCalls P (fst r) cs)"

section \<open>Comparing values and the three-way difference\<close>

definition compareValues :: "platform \<Rightarrow> Value \<Rightarrow> Value \<Rightarrow> int" where
  "compareValues P v1 v2 =
     (if version v1 \<noteq> version v2 then (if version v1 > version v2 then 1 else - 1)
      else if originatorId v1 \<noteq> originatorId v2 then
        (if originatorId v1 > originatorId v2 then 1 else - 1)
      else if hash v1 \<noteq> None \<and> hash v2 \<noteq> None \<and> hash v1 = hash v2 then
        (if ttlVersion v1 \<noteq> ttlVersion v2 then (if ttlVersion v1 > ttlVersion v2 then 1 else - 1)
         else 0)
      else
        (case value_opt v1 of
           None \<Rightarrow> - 2
         | Some a \<Rightarrow> (case value_opt v2 of None \<Rightarrow> - 2 | Some b \<Rightarrow> string_compare P a b)))"

record Publication =
  area :: string
  keyVals :: kvmap
  tobeUpdatedKeys :: "string list option"

text \<open>
  \<^verbatim>\<open>tobeUpdatedKeys_ref()->emplace_back(key)\<close>; the field is set before the loop of
  \<^verbatim>\<open>dumpDifference\<close> starts.
\<close>

definition emplace_back :: "string list option \<Rightarrow> string \<Rightarrow> string list option" where
  "emplace_back l key = map_option (\<lambda>ks. ks @ [key]) l"

text \<open>The body of the loop of \<^verbatim>\<open>dumpDifference\<close> over \<^verbatim>\<open>allKeys\<close>.\<close>

definition dumpStep :: "platform \<Rightarrow> kvmap \<Rightarrow> kvmap \<Rightarrow> string \<Rightarrow> Publication \<Rightarrow> Publication" where
  "dumpStep P myKeyVal reqKeyVal key thriftPub =
     (case myKeyVal key of
        None \<Rightarrow> thriftPub\<lparr>tobeUpdatedKeys := emplace_back (tobeUpdatedKeys thriftPub) key\<rparr>
      | Some myVal \<Rightarrow>
          (case reqKeyVal key of
             None \<Rightarrow> thriftPub\<lparr>keyVals := emplace (keyVals thriftPub) key myVal\<rparr>
           | Some reqVal \<Rightarrow>
               let rc = compareValues P myVal reqVal;
                   pub1 = (if rc = 1 \<or> rc = - 2
                           then thriftPub\<lparr>keyVals := emplace (keyVals thriftPub) key myVal\<rparr>
                           else thriftPub)
               in if rc = - 1 \<or> rc = - 2
                  then pub1\<lparr>tobeUpdatedKeys := emplace_back (tobeUpdatedKeys pub1) key\<rparr>
                  else pub1))"

text \<open>
  \<^verbatim>\<open>dumpDifference(area, myKeyVal, reqKeyVal)\<close>. The two maps are given by their iteration
  order; \<^verbatim>\<open>allKeys\<close> is the set of the keys of both, walked in some order.
\<close>

definition dumpDifference ::
  "platform \<Rightarrow> string \<Rightarrow> (string \<times> Value) list \<Rightarrow> (string \<times> Value) list \<Rightarrow> Publication" where
  "dumpDifference P a myKeyVal reqKeyVal =
     (let thriftPub = \<lparr>area = a, keyVals = Map.empty, tobeUpdatedKeys = Some []\<rparr>;
          allKeys = remdups (map fst myKeyVal @ map fst reqKeyVal)
      in fold (dumpStep P (map_of myKeyVal) (map_of reqKeyVal)) allKeys thriftPub)"


section \<open>Configuration\<close>

record KvstoreFloodRate =
  flood_msg_per_sec :: int
  flood_msg_burst_size :: int

record KvstoreConfig =
  flood_rate :: "KvstoreFloodRate option"

record OpenrConfig =
  node_name :: string
  kvstore_config :: KvstoreConfig

datatype config_error = out_of_range | invalid_argument

text \<open>
  Modelled from the spec: the check of the kvstore section that the constructor of
  \<^verbatim>\<open>Config\<close> runs (\<^verbatim>\<open>openr/config/Config.cpp\<close> is not part of the sources at hand; the test
  \<^verbatim>\<open>ConfigTest.PopulateInternalDb\<close> calls it). The spec: \<^verbatim>\<open>floodRate.msgPerSec\<close> and
  \<^verbatim>\<open>floodRate.burstSize\<close> are positive integers, invalid if \<open>\<le> 0\<close>; the test expects
  \<^verbatim>\<open>std::out_of_range\<close>. The flood rate is an optional field.
\<close>

definition checkKvStoreConfig :: "KvstoreConfig \<Rightarrow> config_error + unit" where
  "checkKvStoreConfig c =
     (case flood_rate c of
        None \<Rightarrow> Inr ()
      | Some floodRate \<Rightarrow>
          if flood_msg_per_sec floodRate \<le> 0 then Inl out_of_range
          else if flood_msg_burst_size floodRate \<le> 0 then Inl out_of_range
          else Inr ())"

text \<open>
  Modelled from the spec: the constructor of \<^verbatim>\<open>Config\<close>, which fails when the
  configuration is invalid. \<open>otherChecks\<close> stands for the validation of every other section,
  which the spec leaves to the configuration loader.
\<close>

definition Config :: "(OpenrConfig \<Rightarrow> config_error + unit) \<Rightarrow> OpenrConfig \<Rightarrow> config_error + OpenrConfig" where
  "Config otherChecks c =
     (case otherChecks c of
        Inl e \<Rightarrow> Inl e
      | Inr _ \<Rightarrow>
          (case checkKvStoreConfig (kvstore_config c) of
             Inl e \<Rightarrow> Inl e
           | Inr _ \<Rightarrow> Inr c))"

section \<open>An instance of the platform\<close>

text \<open>
  \<^verbatim>\<open>std::string::compare\<close> as the GNU C++ library implements it: \<^verbatim>\<open>traits_type::compare\<close>
  on the common length and, when that finds no difference, the difference of the two
  lengths, clamped to \<^verbatim>\<open>int\<close>. \<open>memcmp\<close> returns, as the C library under it does, the
  difference of the first two bytes that differ, read as unsigned.
\<close>

fun memcmp :: "string \<Rightarrow> string \<Rightarrow> int" where
  "memcmp (x # xs) (y # ys) =
     (if x = y then memcmp xs ys else int (of_char x) - int (of_char y))"
| "memcmp _ _ = 0"

definition S_compare :: "nat \<Rightarrow> nat \<Rightarrow> int" where
  "S_compare n1 n2 =
     (let d = int n1 - int n2 in
      if d > 2147483647 then 2147483647
      else if d < - 2147483648 then - 2147483648
      else d)"

definition gnu_compare :: "string \<Rightarrow> string \<Rightarrow> int" where
  "gnu_compare a b =
     (let len = min (length a) (length b);
          r = memcmp (take len a) (take len b)
      in if r \<noteq> 0 then r else S_compare (length a) (length b))"

text \<open>
  The platform of the examples: a constant digest, the comparison above, \<^verbatim>\<open>INT32_MIN\<close> for
  \<^verbatim>\<open>kTtlInfinity\<close>, and patterns that are literal prefixes of the key.
\<close>

definition example_platform :: platform where
  "example_platform =
     \<lparr>generateHash = (\<lambda>ver orig val. 0),
      string_compare = gnu_compare,
      kTtlInfinity = - 2147483648,
      regex_match = (\<lambda>pat key. take (length pat) key = pat)\<rparr>"

section \<open>The comparison of the GNU library conforms\<close>

lemma gnu_compare_Nil1: "gnu_compare [] b = S_compare 0 (length b)"
  by (simp add: gnu_compare_def)

lemma gnu_compare_Nil2: "gnu_compare a [] = S_compare (length a) 0"
  by (simp add: gnu_compare_def)

lemma byte_difference_sign:
  "(int (of_char x) - int (of_char y) < 0) = (x < y)"
  "(int (of_char x) - int (of_char y) = 0) = (x = y)"
  "(0 < int (of_char x) - int (of_char y)) = (y < x)"
  by (simp_all add: less_char_def)

lemma gnu_compare_Cons:
  "gnu_compare (x # xs) (y # ys) =
     (if x = y then gnu_compare xs ys else int (of_char x) - int (of_char y))"
  using byte_difference_sign(2)[of x y]
  by (simp add: gnu_compare_def S_compare_def Let_def)

lemma gnu_compare_sign:
  "(gnu_compare a b < 0) = (a < b) \<and> (gnu_compare a b = 0) = (a = b) \<and> (0 < gnu_compare a b) = (b < a)"
proof (induction a b rule: list_induct2')
  case 1
  show ?case by (simp add: gnu_compare_Nil1 S_compare_def)
next
  case (2 x xs)
  show ?case by (simp add: gnu_compare_Nil2 S_compare_def Let_def)
next
  case (3 y ys)
  show ?case by (simp add: gnu_compare_Nil1 S_compare_def Let_def)
next
  case (4 x xs y ys)
  show ?case
  proof (cases "x = y")
    case True
    with 4 show ?thesis by (simp add: gnu_compare_Cons)
  next
    case False
    with byte_difference_sign[of x y] show ?thesis
      by (simp add: gnu_compare_Cons)
  qed
qed

lemma conforming_gnu_compare: "conforming gnu_compare"
  unfolding conforming_def using gnu_compare_sign by blast

lemma conforming_example: "conforming (string_compare example_platform)"
  by (simp add: example_platform_def conforming_gnu_compare)

lemmas merge_eval = mergeKeyValues_def mergeStep_def updateFlags_def checkUpdateAll_def
  emplace_def example_platform_def gnu_compare_def S_compare_def Let_def

section \<open>One iteration of the merge loop\<close>

lemma mergeStep_skip:
  "updateFlags P f k v (s k) = Inr None \<or> updateFlags P f k v (s k) = Inr (Some (False, False)) \<Longrightarrow>
     mergeStep P f (k, v) (s, d) = Inr (s, d)"
  by (auto simp add: mergeStep_def Let_def)

lemma mergeStep_all:
  "updateFlags P f k v (s k) = Inr (Some (True, b)) \<Longrightarrow> value_opt v \<noteq> None \<Longrightarrow>
     mergeStep P f (k, v) (s, d) =
       Inr (s(k \<mapsto> (if hash v = None
                      then v\<lparr>hash := Some (generateHash P (version v) (originatorId v) (value_opt v))\<rparr>
                      else v)), emplace d k v)"
  by (simp add: mergeStep_def Let_def)

lemma mergeStep_ttl:
  "updateFlags P f k v (s k) = Inr (Some (False, True)) \<Longrightarrow> s k = Some cur \<Longrightarrow>
     mergeStep P f (k, v) (s, d) =
       Inr (s(k \<mapsto> cur\<lparr>ttl := ttl v, ttlVersion := ttlVersion v\<rparr>), emplace d k v)"
  by (simp add: mergeStep_def Let_def)

lemma mergeStep_error:
  "updateFlags P f k v (s k) = Inl e \<Longrightarrow> mergeStep P f (k, v) (s, d) = Inl e"
  by (simp add: mergeStep_def Let_def)

text \<open>flags for an incoming record without a value\<close>
lemma updateFlags_no_value:
  assumes "value_opt v = None"
  shows "updateFlags P f k v it = Inr None \<or> updateFlags P f k v it = Inr (Some (False, False))
     \<or> (updateFlags P f k v it = Inr (Some (False, True)) \<and>
         (\<exists>cur. it = Some cur \<and> version v = version cur \<and> originatorId v = originatorId cur
            \<and> ttlVersion cur < ttlVersion v))"
  using assms
  by (simp add: updateFlags_def checkUpdateAll_def Let_def split: option.split)

text \<open>flags for an incoming record with a value, against a stored record\<close>
lemma updateFlags_value:
  assumes "conforming (string_compare P)" and "value_opt v = Some x"
    and "case f of None \<Rightarrow> True | Some flt \<Rightarrow> keyMatch P flt k v"
    and "ttl v = kTtlInfinity P \<or> 0 < ttl v"
  shows "updateFlags P f k v (Some cur) =
     (if version v < version cur then Inr None
      else if version cur < version v then Inr (Some (True, False))
      else if originatorId cur < originatorId v then Inr (Some (True, False))
      else if originatorId v \<noteq> originatorId cur then Inr (Some (False, False))
      else (case value_opt cur of
              None \<Rightarrow> Inl BadFieldAccess
            | Some cv \<Rightarrow>
                if cv < x then Inr (Some (True, False))
                else if x = cv then Inr (Some (False, ttlVersion cur < ttlVersion v))
                else Inr (Some (False, False))))"
proof -
  from assms(1) have c: "\<And>a b. (0 < string_compare P a b) = (b < a)"
    "\<And>a b. (string_compare P a b = 0) = (a = b)"
    by (simp_all add: conforming_def)
  from assms(3) have flt: "(case f of None \<Rightarrow> False | Some flt \<Rightarrow> \<not> keyMatch P flt k v) = False"
    by (simp split: option.splits)
  from assms(4) have t: "(ttl v \<noteq> kTtlInfinity P \<and> ttl v \<le> 0) = False" by auto
  show ?thesis
    unfolding updateFlags_def checkUpdateAll_def Let_def flt t
    by (simp add: assms(2) c split: option.split)
qed


lemma flags_cases:
  fixes fl :: "error + (bool \<times> bool) option"
  obtains (err) e where "fl = Inl e"
    | (skip) "fl = Inr None \<or> fl = Inr (Some (False, False))"
    | (all) b where "fl = Inr (Some (True, b))"
    | (refresh) "fl = Inr (Some (False, True))"
proof (cases fl)
  case (Inl e)
  then show thesis by (rule err)
next
  case (Inr x)
  show thesis
  proof (cases x)
    case None
    with Inr show thesis by (simp add: skip)
  next
    case (Some p)
    obtain a b where p: "p = (a, b)" by (cases p)
    show thesis
    proof (cases a)
      case True
      with Inr Some p show thesis by (simp add: all)
    next
      case False
      with Inr Some p show thesis by (cases b) (simp_all add: skip refresh)
    qed
  qed
qed

lemma emplace_empty: "emplace Map.empty k v k = Some v"
  by (simp add: emplace_def)

text \<open>
  A step either leaves the state as it is, or writes the store under its own key and
  announces that key.
\<close>

lemma mergeStep_shape:
  "case mergeStep P f kv st of
     Inl e \<Rightarrow> True
   | Inr st' \<Rightarrow> st' = st \<or> (\<exists>new. st' = ((fst st)(fst kv \<mapsto> new), emplace (snd st) (fst kv) (snd kv)))"
  unfolding mergeStep_def Let_def
  by (auto split: sum.split option.split prod.split)

lemma mergeStep_frame:
  assumes "mergeStep P f kv st = Inr st'" and "k' \<noteq> fst kv"
  shows "fst st' k' = fst st k' \<and> snd st' k' = snd st k'"
  using mergeStep_shape[where P=P and f=f and kv=kv and st=st] assms
  by (auto simp: emplace_def split: option.splits)

lemma mergeStep_cong:
  assumes "s2 k = s1 k" and "d2 k = d1 k"
  shows "case mergeStep P f (k, v) (s1, d1) of
     Inl e \<Rightarrow> mergeStep P f (k, v) (s2, d2) = Inl e
   | Inr st1' \<Rightarrow> (\<exists>st2'. mergeStep P f (k, v) (s2, d2) = Inr st2' \<and> fst st2' k = fst st1' k
           \<and> snd st2' k = snd st1' k)"
  unfolding mergeStep_def Let_def
  by (auto simp add: emplace_def assms split: sum.split option.split prod.split)


lemma mergeStep_agree:
  assumes "mergeStep P f kv st1 = Inr r1"
    and "fst st2 (fst kv) = fst st1 (fst kv)" and "snd st2 (fst kv) = snd st1 (fst kv)"
  shows "\<exists>r2. mergeStep P f kv st2 = Inr r2 \<and> fst r2 (fst kv) = fst r1 (fst kv)
            \<and> snd r2 (fst kv) = snd r1 (fst kv)"
proof -
  obtain k v s1 d1 s2 d2 where eqs: "kv = (k, v)" "st1 = (s1, d1)" "st2 = (s2, d2)"
    by (cases kv, cases st1, cases st2) blast
  from assms(2,3) have "s2 k = s1 k" "d2 k = d1 k" by (simp_all add: eqs)
  from mergeStep_cong[where ?s2.0=s2 and ?s1.0=s1 and ?d2.0=d2 and ?d1.0=d1 and k=k and P=P and f=f and v=v] this assms(1)
  show ?thesis by (simp add: eqs)
qed

lemma mergeLoop_frame:
  "mergeLoop P f b st = Inr st' \<Longrightarrow> k \<notin> fst ` set b \<Longrightarrow>
     fst st' k = fst st k \<and> snd st' k = snd st k"
proof (induction b arbitrary: st)
  case Nil
  then show ?case by simp
next
  case (Cons x rest)
  from Cons.prems(1) obtain st1 where
    s1: "mergeStep P f x st = Inr st1" and l1: "mergeLoop P f rest st1 = Inr st'"
    by (auto split: sum.splits)
  from Cons.prems(2) have "k \<noteq> fst x" "k \<notin> fst ` set rest" by auto
  with Cons.IH[OF l1] mergeStep_frame[OF s1] show ?case by simp
qed

lemma mergeLoop_at_key:
  "distinct (map fst b) \<Longrightarrow> mergeLoop P f b st = Inr st' \<Longrightarrow> kv \<in> set b \<Longrightarrow>
     \<exists>r. mergeStep P f kv st = Inr r \<and> fst r (fst kv) = fst st' (fst kv)
          \<and> snd r (fst kv) = snd st' (fst kv)"
proof (induction b arbitrary: st)
  case Nil
  then show ?case by simp
next
  case (Cons x rest)
  from Cons.prems(2) obtain st1 where
    s1: "mergeStep P f x st = Inr st1" and l1: "mergeLoop P f rest st1 = Inr st'"
    by (auto split: sum.splits)
  from Cons.prems(1) have d: "distinct (map fst rest)" and nx: "fst x \<notin> fst ` set rest"
    by simp_all
  show ?case
  proof (cases "kv = x")
    case True
    with mergeLoop_frame[OF l1 nx] s1 show ?thesis by simp
  next
    case False
    with Cons.prems(3) have mem: "kv \<in> set rest" by simp
    with nx have ne: "fst kv \<noteq> fst x" by (metis imageI)
    from Cons.IH[OF d l1 mem] obtain r1 where
      r1: "mergeStep P f kv st1 = Inr r1" "fst r1 (fst kv) = fst st' (fst kv)"
          "snd r1 (fst kv) = snd st' (fst kv)" by blast
    from mergeStep_frame[OF s1 ne] have
      "fst st (fst kv) = fst st1 (fst kv)" "snd st (fst kv) = snd st1 (fst kv)" by simp_all
    from mergeStep_agree[OF r1(1) this] r1(2,3) show ?thesis by auto
  qed
qed

lemma mergeLoop_returns:
  "distinct (map fst b) \<Longrightarrow> (\<And>kv. kv \<in> set b \<Longrightarrow> \<exists>r. mergeStep P f kv st = Inr r) \<Longrightarrow>
     \<exists>st'. mergeLoop P f b st = Inr st'"
proof (induction b arbitrary: st)
  case Nil
  then show ?case by simp
next
  case (Cons x rest)
  from Cons.prems(2)[of x] obtain st1 where s1: "mergeStep P f x st = Inr st1" by auto
  from Cons.prems(1) have d: "distinct (map fst rest)" and nx: "fst x \<notin> fst ` set rest"
    by simp_all
  have "\<exists>r. mergeStep P f kv st1 = Inr r" if mem: "kv \<in> set rest" for kv
  proof -
    from mem nx have ne: "fst kv \<noteq> fst x" by (metis imageI)
    from Cons.prems(2)[of kv] mem obtain r where r: "mergeStep P f kv st = Inr r" by auto
    from mergeStep_frame[OF s1 ne] mergeStep_agree[OF r, of st1] show ?thesis by auto
  qed
  from Cons.IH[OF d this] s1 show ?case by simp
qed

lemma mergeLoop_perm:
  assumes "distinct (map fst b1)" and "mset b1 = mset b2"
    and "mergeLoop P f b1 st = Inr st1"
  shows "mergeLoop P f b2 st = Inr st1"
proof -
  from assms(2) have sets: "set b1 = set b2" by (rule mset_eq_setD)
  from assms(2) have "mset (map fst b1) = mset (map fst b2)" by (metis mset_map)
  with assms(1) have d2: "distinct (map fst b2)" by (metis mset_eq_imp_distinct_iff)
  have "\<exists>r. mergeStep P f kv st = Inr r" if "kv \<in> set b2" for kv
    using mergeLoop_at_key[OF assms(1,3), of kv] that sets by auto
  from mergeLoop_returns[OF d2 this] obtain st2 where l2: "mergeLoop P f b2 st = Inr st2"
    by blast
  have "fst st2 k = fst st1 k \<and> snd st2 k = snd st1 k" for k
  proof (cases "k \<in> fst ` set b1")
    case True
    then obtain kv where kv: "kv \<in> set b1" "fst kv = k" by auto
    from mergeLoop_at_key[OF assms(1,3) kv(1)] mergeLoop_at_key[OF d2 l2, of kv] kv sets
    show ?thesis by auto
  next
    case False
    with mergeLoop_frame[OF assms(3), of k] mergeLoop_frame[OF l2, of k] sets
    show ?thesis by simp
  qed
  then have "st2 = st1" by (intro prod_eqI ext) simp_all
  with l2 show ?thesis by simp
qed

lemma mergeKeyValues_at_key:
  assumes "distinct (map fst batch)"
    and "mergeKeyValues P kvStore batch filters = Inr (kvStore', kvUpdates)"
    and "(key, inc) \<in> set batch"
  shows "\<exists>s d. mergeStep P filters (key, inc) (kvStore, Map.empty) = Inr (s, d)
           \<and> s key = kvStore' key \<and> d key = kvUpdates key"
  using mergeLoop_at_key[OF assms(1) assms(2)[unfolded mergeKeyValues_def] assms(3)]
  by auto


section \<open>Monotonicity, repetition and totality of a step\<close>

lemma updateFlags_all_newer:
  "updateFlags P f k v (Some cur) = Inr (Some (True, b)) \<Longrightarrow>
     version cur < version v \<or> (version v = version cur \<and> originatorId cur \<le> originatorId v)"
  by (auto simp: updateFlags_def checkUpdateAll_def Let_def split: if_splits option.splits)

lemma mergeStep_no_downgrade:
  assumes "mergeStep P f kv st = Inr st'" and "fst st k = Some cur"
  shows "\<exists>new. fst st' k = Some new
           \<and> (version cur, originatorId cur) \<le> (version new, originatorId new)"
proof (cases "k = fst kv")
  case False
  from mergeStep_frame[OF assms(1) False] assms(2) show ?thesis by simp
next
  case True
  obtain v s d where eqs: "kv = (k, v)" "st = (s, d)" using True by (cases kv, cases st) auto
  from assms(2) have cur: "s k = Some cur" by (simp add: eqs)
  show ?thesis
  proof (cases "updateFlags P f k v (s k)" rule: flags_cases)
    case (err e)
    from mergeStep_error[where s=s and d=d, OF err] assms(1) show ?thesis by (simp add: eqs)
  next
    case skip
    from mergeStep_skip[where s=s and d=d, OF skip] assms(1) cur show ?thesis
      by (auto simp add: eqs)
  next
    case (all b)
    from all cur have nv: "value_opt v \<noteq> None"
      by (auto simp: updateFlags_def checkUpdateAll_def Let_def split: if_splits option.splits)
    from all have "version cur < version v \<or> (version v = version cur \<and> originatorId cur \<le> originatorId v)"
      unfolding cur by (rule updateFlags_all_newer)
    with mergeStep_all[where s=s and d=d, OF all nv] assms(1) show ?thesis
      by (auto simp add: eqs)
  next
    case refresh
    from mergeStep_ttl[where s=s and d=d, OF refresh cur] assms(1) show ?thesis
      by (auto simp add: eqs)
  qed
qed

lemma mergeLoop_no_downgrade:
  "mergeLoop P f b st = Inr st' \<Longrightarrow> fst st k = Some cur \<Longrightarrow>
     \<exists>new. fst st' k = Some new \<and> (version cur, originatorId cur) \<le> (version new, originatorId new)"
proof (induction b arbitrary: st cur)
  case Nil
  then show ?case by auto
next
  case (Cons x rest)
  from Cons.prems(1) obtain st1 where
    s1: "mergeStep P f x st = Inr st1" and l1: "mergeLoop P f rest st1 = Inr st'"
    by (auto split: sum.splits)
  from mergeStep_no_downgrade[OF s1 Cons.prems(2)] obtain mid where
    mid: "fst st1 k = Some mid" "(version cur, originatorId cur) \<le> (version mid, originatorId mid)"
    by blast
  from Cons.IH[OF l1 mid(1)] obtain new where
    new: "fst st' k = Some new" "(version mid, originatorId mid) \<le> (version new, originatorId new)"
    by blast
  from mid(2) new(2) have "(version cur, originatorId cur) \<le> (version new, originatorId new)"
    by (rule order_trans)
  with new(1) show ?case by blast
qed

lemma mergeStep_same:
  assumes "conforming (string_compare P)" and "s k = Some cur"
    and "version cur = version v" "originatorId cur = originatorId v"
        "value_opt cur = value_opt v" "ttlVersion cur = ttlVersion v"
  shows "mergeStep P f (k, v) (s, d) = Inr (s, d)"
proof -
  from assms(1) have c: "\<And>a. string_compare P a a = 0"
    by (simp add: conforming_def)
  have "updateFlags P f k v (s k) = Inr None \<or> updateFlags P f k v (s k) = Inr (Some (False, False))"
    unfolding assms(2) updateFlags_def checkUpdateAll_def Let_def
    by (simp add: c assms(3-6)[symmetric] split: option.split)
  then show ?thesis by (rule mergeStep_skip)
qed

lemma updateFlags_not_invalid:
  assumes "value_opt v \<noteq> None \<longrightarrow> 1 \<le> version v"
  shows "updateFlags P f k v it \<noteq> Inl InvalidIterator"
  using assms unfolding updateFlags_def checkUpdateAll_def Let_def
  by (auto split: option.split)

lemma updateFlags_flags:
  "updateFlags P f k v it = Inr (Some (a, b)) \<Longrightarrow>
     (a \<longrightarrow> value_opt v \<noteq> None) \<and> (\<not> a \<and> b \<longrightarrow> it \<noteq> None)"
  unfolding updateFlags_def checkUpdateAll_def Let_def
  by (auto split: if_splits option.splits)

lemma updateFlags_total:
  assumes "value_opt v \<noteq> None \<longrightarrow> 1 \<le> version v"
    and "\<And>cur. it = Some cur \<Longrightarrow> value_opt cur \<noteq> None"
  shows "\<exists>r. updateFlags P f k v it = Inr r"
  using assms unfolding updateFlags_def checkUpdateAll_def Let_def
  by (auto split: option.split)


lemma mergeStep_not_invalid:
  assumes "value_opt (snd kv) \<noteq> None \<longrightarrow> 1 \<le> version (snd kv)"
  shows "mergeStep P f kv st \<noteq> Inl InvalidIterator"
proof -
  let ?fl = "updateFlags P f (fst kv) (snd kv) (fst st (fst kv))"
  note ni = updateFlags_not_invalid[OF assms, of P f "fst kv" "fst st (fst kv)"]
  show ?thesis
  proof (cases ?fl)
    case (Inl e)
    with ni show ?thesis by (simp add: mergeStep_def Let_def)
  next
    case (Inr x)
    then show ?thesis
      by (simp add: mergeStep_def Let_def split: option.split prod.split)
  qed
qed

lemma mergeLoop_not_invalid:
  "\<forall>(k, v) \<in> set b. value_opt v \<noteq> None \<longrightarrow> 1 \<le> version v \<Longrightarrow>
     mergeLoop P f b st \<noteq> Inl (InvalidIterator, s)"
proof (induction b arbitrary: st)
  case Nil
  show ?case by simp
next
  case (Cons x rest)
  from Cons.prems have "value_opt (snd x) \<noteq> None \<longrightarrow> 1 \<le> version (snd x)" by auto
  from mergeStep_not_invalid[OF this] have "mergeStep P f x st \<noteq> Inl InvalidIterator" .
  moreover from Cons have "\<And>st1. mergeLoop P f rest st1 \<noteq> Inl (InvalidIterator, s)" by simp
  ultimately show ?case by (auto split: sum.split)
qed

lemma mergeStep_total:
  assumes "value_opt (snd kv) \<noteq> None \<longrightarrow> 1 \<le> version (snd kv)"
    and "\<forall>k cur. fst st k = Some cur \<longrightarrow> value_opt cur \<noteq> None"
  shows "\<exists>st'. mergeStep P f kv st = Inr st'
           \<and> (\<forall>k cur. fst st' k = Some cur \<longrightarrow> value_opt cur \<noteq> None)"
proof -
  obtain k v s d where eqs: "kv = (k, v)" "st = (s, d)" by (cases kv, cases st) auto
  from assms(2) have inv: "\<And>k cur. s k = Some cur \<Longrightarrow> value_opt cur \<noteq> None"
    by (simp add: eqs)
  from assms(1) have pre: "value_opt v \<noteq> None \<longrightarrow> 1 \<le> version v" by (simp add: eqs)
  show ?thesis
  proof (cases "updateFlags P f k v (s k)" rule: flags_cases)
    case (err e)
    with updateFlags_total[OF pre, of "s k" P f k] inv show ?thesis by auto
  next
    case skip
    from mergeStep_skip[where s=s and d=d, OF skip] assms(2) show ?thesis
      by (simp add: eqs)
  next
    case (all b)
    from updateFlags_flags[OF all] have nv: "value_opt v \<noteq> None" by simp
    from mergeStep_all[where s=s and d=d, OF all nv] inv nv show ?thesis
      by (auto simp add: eqs)
  next
    case refresh
    from updateFlags_flags[OF refresh] obtain cur where cur: "s k = Some cur" by auto
    from mergeStep_ttl[where s=s and d=d, OF refresh cur] inv cur show ?thesis
      by (auto simp add: eqs)
  qed
qed

lemma mergeLoop_total:
  "\<forall>(k, v) \<in> set b. value_opt v \<noteq> None \<longrightarrow> 1 \<le> version v \<Longrightarrow>
   \<forall>k cur. fst st k = Some cur \<longrightarrow> value_opt cur \<noteq> None \<Longrightarrow>
     \<exists>st'. mergeLoop P f b st = Inr st'"
proof (induction b arbitrary: st)
  case Nil
  show ?case by simp
next
  case (Cons x rest)
  from Cons.prems(1) have "value_opt (snd x) \<noteq> None \<longrightarrow> 1 \<le> version (snd x)" by auto
  from mergeStep_total[OF this Cons.prems(2), of P f] obtain st1 where
    s1: "mergeStep P f x st = Inr st1"
    and inv1: "\<forall>k cur. fst st1 k = Some cur \<longrightarrow> value_opt cur \<noteq> None" by blast
  from Cons.prems(1) have "\<forall>(k, v) \<in> set rest. value_opt v \<noteq> None \<longrightarrow> 1 \<le> version v" by simp
  from Cons.IH[OF this inv1] s1 show ?case by simp
qed

lemma mergeStep_version_zero:
  assumes "s k = None" and "value_opt v \<noteq> None" and "version v = 0"
    and "case f of None \<Rightarrow> True | Some flt \<Rightarrow> keyMatch P flt k v"
    and "ttl v = kTtlInfinity P \<or> 0 < ttl v"
  shows "mergeStep P f (k, v) (s, d) = Inl InvalidIterator"
proof -
  from assms(4) have flt: "(case f of None \<Rightarrow> False | Some flt \<Rightarrow> \<not> keyMatch P flt k v) = False"
    by (simp split: option.splits)
  from assms(5) have t: "(ttl v \<noteq> kTtlInfinity P \<and> ttl v \<le> 0) = False" by auto
  from assms(2) obtain x where x: "value_opt v = Some x" by auto
  have "updateFlags P f k v (s k) = Inl InvalidIterator"
    unfolding updateFlags_def checkUpdateAll_def Let_def flt t
    by (simp add: assms(1,3) x)
  then show ?thesis by (rule mergeStep_error)
qed

section \<open>The loop of the three-way difference\<close>

lemma dumpStep_keyVals:
  "keyVals (dumpStep P my req k pub) key =
     (case keyVals pub key of
        Some x \<Rightarrow> Some x
      | None \<Rightarrow>
          if key = k then
            (case my k of
               None \<Rightarrow> None
             | Some m \<Rightarrow>
                 (case req k of
                    None \<Rightarrow> Some m
                  | Some r \<Rightarrow>
                      if compareValues P m r = 1 \<or> compareValues P m r = - 2 then Some m else None))
          else None)"
  by (simp add: dumpStep_def emplace_def Let_def split: option.split)

lemma dumpStep_tobeUpdatedKeys:
  assumes "tobeUpdatedKeys pub = Some l"
  shows "\<exists>l'. tobeUpdatedKeys (dumpStep P my req k pub) = Some l' \<and>
           (\<forall>key. (key \<in> set l') =
              (key \<in> set l \<or> key = k \<and>
                 (case my k of
                    None \<Rightarrow> True
                  | Some m \<Rightarrow>
                      (case req k of
                         None \<Rightarrow> False
                       | Some r \<Rightarrow> compareValues P m r = - 1 \<or> compareValues P m r = - 2))))"
  using assms
  by (auto simp add: dumpStep_def emplace_back_def Let_def split: option.split)

lemma fold_dumpStep_keyVals:
  "keyVals (fold (dumpStep P my req) ks pub) key =
     (case keyVals pub key of
        Some x \<Rightarrow> Some x
      | None \<Rightarrow>
          if key \<in> set ks then
            (case my key of
               None \<Rightarrow> None
             | Some m \<Rightarrow>
                 (case req key of
                    None \<Rightarrow> Some m
                  | Some r \<Rightarrow>
                      if compareValues P m r = 1 \<or> compareValues P m r = - 2 then Some m else None))
          else None)"
proof -
  define g where "g = (\<lambda>k. case my k of
               None \<Rightarrow> None
             | Some m \<Rightarrow>
                 (case req k of
                    None \<Rightarrow> Some m
                  | Some r \<Rightarrow>
                      if compareValues P m r = 1 \<or> compareValues P m r = - 2 then Some m else None))"
  have step: "keyVals (dumpStep P my req k p) key =
      (case keyVals p key of Some x \<Rightarrow> Some x | None \<Rightarrow> if key = k then g k else None)" for k p
    unfolding g_def by (rule dumpStep_keyVals)
  have "keyVals (fold (dumpStep P my req) ks pub) key =
      (case keyVals pub key of Some x \<Rightarrow> Some x | None \<Rightarrow> if key \<in> set ks then g key else None)"
  proof (induction ks arbitrary: pub)
    case Nil
    show ?case by (simp split: option.split)
  next
    case (Cons k ks)
    show ?case by (auto simp add: Cons.IH step split: option.split)
  qed
  then show ?thesis unfolding g_def .
qed

lemma fold_dumpStep_tobeUpdatedKeys:
  "tobeUpdatedKeys pub = Some l \<Longrightarrow>
     \<exists>l'. tobeUpdatedKeys (fold (dumpStep P my req) ks pub) = Some l' \<and>
           (\<forall>key. (key \<in> set l') =
              (key \<in> set l \<or> key \<in> set ks \<and>
                 (case my key of
                    None \<Rightarrow> True
                  | Some m \<Rightarrow>
                      (case req key of
                         None \<Rightarrow> False
                       | Some r \<Rightarrow> compareValues P m r = - 1 \<or> compareValues P m r = - 2))))"
proof (induction ks arbitrary: pub l)
  case Nil
  then show ?case by simp
next
  case (Cons k ks)
  from dumpStep_tobeUpdatedKeys[OF Cons.prems, of P my req k] obtain l1 where
    l1: "tobeUpdatedKeys (dumpStep P my req k pub) = Some l1"
    and m1: "\<And>key. (key \<in> set l1) =
              (key \<in> set l \<or> key = k \<and>
                 (case my k of
                    None \<Rightarrow> True
                  | Some m \<Rightarrow>
                      (case req k of
                         None \<Rightarrow> False
                       | Some r \<Rightarrow> compareValues P m r = - 1 \<or> compareValues P m r = - 2)))"
    by blast
  from Cons.IH[OF l1] obtain l' where
    l': "tobeUpdatedKeys (fold (dumpStep P my req) ks (dumpStep P my req k pub)) = Some l'"
    and m': "\<And>key. (key \<in> set l') =
              (key \<in> set l1 \<or> key \<in> set ks \<and>
                 (case my key of
                    None \<Rightarrow> True
                  | Some m \<Rightarrow>
                      (case req key of
                         None \<Rightarrow> False
                       | Some r \<Rightarrow> compareValues P m r = - 1 \<or> compareValues P m r = - 2)))"
    by blast
  have "\<forall>key. (key \<in> set l') =
              (key \<in> set l \<or> key \<in> set (k # ks) \<and>
                 (case my key of
                    None \<Rightarrow> True
                  | Some m \<Rightarrow>
                      (case req key of
                         None \<Rightarrow> False
                       | Some r \<Rightarrow> compareValues P m r = - 1 \<or> compareValues P m r = - 2)))"
    unfolding m' m1 by auto
  with l' show ?case by simp
qed

section \<open>Claims about the merge engine\<close>

text \<open>
  Claim C4. For a stored record and an incoming record without a value, \<^verbatim>\<open>mergeKeyValues\<close>
  updates only when the incoming version and originatorId equal the stored ones and the
  incoming ttlVersion is strictly larger, and then only \<open>ttl\<close> and \<open>ttlVersion\<close> of the
  stored record change: its value, version, originatorId and hash stay as they were. An
  update is announced in the returned delta; without one the stored record is the old one.
\<close>

theorem ttl_refresh_changes_ttl_only:
  assumes "distinct (map fst batch)"
    and "mergeKeyValues P kvStore batch filters = Inr (kvStore', kvUpdates)"
    and "(key, inc) \<in> set batch"
    and "value_opt inc = None"
    and "kvStore key = Some cur"
  shows "(\<exists>new. kvStore' key = Some new \<and> value_opt new = value_opt cur \<and> version new = version cur
            \<and> originatorId new = originatorId cur \<and> hash new = hash cur)
       \<and> ((kvStore' key = Some cur \<and> kvUpdates key = None)
          \<or> (version inc = version cur \<and> originatorId inc = originatorId cur
              \<and> ttlVersion cur < ttlVersion inc
              \<and> kvStore' key = Some (cur\<lparr>ttl := ttl inc, ttlVersion := ttlVersion inc\<rparr>)
              \<and> kvUpdates key = Some inc))"
proof -
  from mergeKeyValues_at_key[OF assms(1-3)] obtain s d where
    st: "mergeStep P filters (key, inc) (kvStore, Map.empty) = Inr (s, d)"
    and at: "s key = kvStore' key" "d key = kvUpdates key" by blast
  let ?fl = "updateFlags P filters key inc (kvStore key)"
  from updateFlags_no_value[OF assms(4), of P filters key "kvStore key"]
  consider (skip) "?fl = Inr None \<or> ?fl = Inr (Some (False, False))"
    | (refresh) "?fl = Inr (Some (False, True))" "version inc = version cur"
        "originatorId inc = originatorId cur" "ttlVersion cur < ttlVersion inc"
    using assms(5) by auto
  then show ?thesis
  proof cases
    case skip
    from mergeStep_skip[where s=kvStore and d=Map.empty, OF skip] st have "s = kvStore" "d = Map.empty" by simp_all
    with at assms(5) have "kvStore' key = Some cur" "kvUpdates key = None" by auto
    then show ?thesis by simp
  next
    case refresh
    from mergeStep_ttl[where s=kvStore and d=Map.empty, OF refresh(1) assms(5)] st
    have "s key = Some (cur\<lparr>ttl := ttl inc, ttlVersion := ttlVersion inc\<rparr>)" "d key = Some inc"
      by (auto simp: emplace_empty)
    with at have "kvStore' key = Some (cur\<lparr>ttl := ttl inc, ttlVersion := ttlVersion inc\<rparr>)"
      "kvUpdates key = Some inc" by auto
    with refresh show ?thesis by simp
  qed
qed

theorem ttl_refresh_changes_ttl_only_witness:
  "\<exists>kvStore' kvUpdates.
     mergeKeyValues example_platform
       [''a'' \<mapsto> \<lparr>version = 1, originatorId = ''x'', value_opt = Some ''A'', ttl = 60000,
                  ttlVersion = 3, hash = Some 7\<rparr>]
       [(''a'', \<lparr>version = 1, originatorId = ''x'', value_opt = None, ttl = 30000,
                 ttlVersion = 4, hash = None\<rparr>)] None
       = Inr (kvStore', kvUpdates)
     \<and> kvStore' ''a'' = Some \<lparr>version = 1, originatorId = ''x'', value_opt = Some ''A'', ttl = 30000,
                  ttlVersion = 4, hash = Some 7\<rparr>
     \<and> kvUpdates ''a'' \<noteq> None"
proof -
  let ?cur = "\<lparr>version = 1, originatorId = ''x'', value_opt = Some ''A'', ttl = 60000,
                  ttlVersion = 3, hash = Some 7\<rparr>"
  let ?inc = "\<lparr>version = 1, originatorId = ''x'', value_opt = None, ttl = 30000,
                 ttlVersion = 4, hash = None\<rparr>"
  obtain s d where
    r: "mergeKeyValues example_platform [''a'' \<mapsto> ?cur] [(''a'', ?inc)] None = Inr (s, d)"
    by (simp add: merge_eval)
  have "d ''a'' \<noteq> None" using r by (auto simp add: merge_eval)
  with ttl_refresh_changes_ttl_only[OF _ r, of "''a''" ?inc ?cur] r
  show ?thesis by auto
qed

text \<open>
  Claim C1, as amended. For an incoming record that carries a value, passes the filter (if
  there is one) and has a valid ttl (infinite or positive), against a stored record under
  the same key: the incoming record replaces the stored one iff its version is higher, or
  the versions are equal and its originatorId is lexicographically larger, or version and
  originatorId are equal and its value bytes are lexicographically larger than the stored
  value; when version, originatorId and value are all equal, a strictly larger ttlVersion
  makes a TTL-only update; in every other case the stored record is kept and the key is
  not in the returned delta. A replacing record gets its hash filled in when it has none.
\<close>

theorem mergeKeyValues_resolves_by_order:
  assumes "conforming (string_compare P)"
    and "distinct (map fst batch)"
    and "mergeKeyValues P kvStore batch filters = Inr (kvStore', kvUpdates)"
    and "(key, inc) \<in> set batch"
    and "value_opt inc = Some v"
    and "case filters of None \<Rightarrow> True | Some f \<Rightarrow> keyMatch P f key inc"
    and "ttl inc = kTtlInfinity P \<or> 0 < ttl inc"
    and "kvStore key = Some cur"
  shows
    "if version cur < version inc
        \<or> (version inc = version cur \<and> originatorId cur < originatorId inc)
        \<or> (version inc = version cur \<and> originatorId inc = originatorId cur
            \<and> (\<exists>cv. value_opt cur = Some cv \<and> cv < v))
     then kvStore' key =
            Some (if hash inc = None
                  then inc\<lparr>hash := Some (generateHash P (version inc) (originatorId inc) (value_opt inc))\<rparr>
                  else inc)
          \<and> kvUpdates key = Some inc
     else if version inc = version cur \<and> originatorId inc = originatorId cur
             \<and> value_opt cur = Some v \<and> ttlVersion cur < ttlVersion inc
     then kvStore' key = Some (cur\<lparr>ttl := ttl inc, ttlVersion := ttlVersion inc\<rparr>)
          \<and> kvUpdates key = Some inc
     else kvStore' key = Some cur \<and> kvUpdates key = None"
proof -
  from mergeKeyValues_at_key[OF assms(2-4)] obtain s d where
    st: "mergeStep P filters (key, inc) (kvStore, Map.empty) = Inr (s, d)"
    and at: "s key = kvStore' key" "d key = kvUpdates key" by blast
  note fl = updateFlags_value[OF assms(1,5,6,7), of cur]
  let ?fl = "updateFlags P filters key inc (kvStore key)"
  have nv: "value_opt inc \<noteq> None" using assms(5) by simp
  show ?thesis
  proof (cases ?fl rule: flags_cases)
    case err
    from mergeStep_error[where s=kvStore and d=Map.empty, OF err] st show ?thesis by simp
  next
    case skip
    from mergeStep_skip[where s=kvStore and d=Map.empty, OF skip] st have eq: "s = kvStore" "d = Map.empty" by simp_all
    from skip fl have "\<not> (version cur < version inc
        \<or> (version inc = version cur \<and> originatorId cur < originatorId inc)
        \<or> (version inc = version cur \<and> originatorId inc = originatorId cur
            \<and> (\<exists>cv. value_opt cur = Some cv \<and> cv < v)))"
       "\<not> (version inc = version cur \<and> originatorId inc = originatorId cur
             \<and> value_opt cur = Some v \<and> ttlVersion cur < ttlVersion inc)"
      unfolding assms(8) by (auto split: if_splits option.splits)
    moreover from eq at assms(8) have "kvStore' key = Some cur" "kvUpdates key = None" by auto
    ultimately show ?thesis by simp
  next
    case all
    from mergeStep_all[where s=kvStore and d=Map.empty, OF all nv] st
    have eq: "s key = Some (if hash inc = None
                  then inc\<lparr>hash := Some (generateHash P (version inc) (originatorId inc) (value_opt inc))\<rparr>
                  else inc)" "d key = Some inc"
      by (auto simp: emplace_empty)
    from all fl have "version cur < version inc
        \<or> (version inc = version cur \<and> originatorId cur < originatorId inc)
        \<or> (version inc = version cur \<and> originatorId inc = originatorId cur
            \<and> (\<exists>cv. value_opt cur = Some cv \<and> cv < v))"
      unfolding assms(8) by (auto split: if_splits option.splits)
    moreover from eq at have "kvStore' key = s key" "kvUpdates key = d key" by auto
    ultimately show ?thesis using eq by simp
  next
    case refresh
    from mergeStep_ttl[where s=kvStore and d=Map.empty, OF refresh assms(8)] st
    have eq: "s key = Some (cur\<lparr>ttl := ttl inc, ttlVersion := ttlVersion inc\<rparr>)" "d key = Some inc"
      by (auto simp: emplace_empty)
    from refresh fl have "\<not> (version cur < version inc
        \<or> (version inc = version cur \<and> originatorId cur < originatorId inc)
        \<or> (version inc = version cur \<and> originatorId inc = originatorId cur
            \<and> (\<exists>cv. value_opt cur = Some cv \<and> cv < v)))"
       "version inc = version cur \<and> originatorId inc = originatorId cur
             \<and> value_opt cur = Some v \<and> ttlVersion cur < ttlVersion inc"
      unfolding assms(8) by (auto split: if_splits option.splits)
    moreover from eq at have "kvStore' key = s key" "kvUpdates key = d key" by auto
    ultimately show ?thesis using eq by simp
  qed
qed

theorem mergeKeyValues_resolves_by_order_witness:
  "\<exists>kvStore' kvUpdates.
     mergeKeyValues example_platform
       [''a'' \<mapsto> \<lparr>version = 1, originatorId = ''x'', value_opt = Some ''A'', ttl = 60000,
                  ttlVersion = 0, hash = None\<rparr>]
       [(''a'', \<lparr>version = 1, originatorId = ''y'', value_opt = Some ''B'', ttl = 60000,
                 ttlVersion = 0, hash = None\<rparr>)] None
       = Inr (kvStore', kvUpdates)
     \<and> kvStore' ''a'' = Some \<lparr>version = 1, originatorId = ''y'', value_opt = Some ''B'', ttl = 60000,
                  ttlVersion = 0, hash = Some 0\<rparr>
     \<and> kvUpdates ''a'' = Some \<lparr>version = 1, originatorId = ''y'', value_opt = Some ''B'', ttl = 60000,
                  ttlVersion = 0, hash = None\<rparr>"
proof -
  let ?cur = "\<lparr>version = 1, originatorId = ''x'', value_opt = Some ''A'', ttl = 60000,
                  ttlVersion = 0, hash = None\<rparr>"
  let ?inc = "\<lparr>version = 1, originatorId = ''y'', value_opt = Some ''B'', ttl = 60000,
                 ttlVersion = 0, hash = None\<rparr>"
  obtain s d where
    r: "mergeKeyValues example_platform [''a'' \<mapsto> ?cur] [(''a'', ?inc)] None = Inr (s, d)"
    by (simp add: merge_eval)
  have t: "ttl ?inc = kTtlInfinity example_platform \<or> 0 < ttl ?inc" by simp
  from mergeKeyValues_resolves_by_order[OF conforming_example _ r, of "''a''" ?inc "''B''" ?cur] t r
  show ?thesis by (simp add: example_platform_def)
qed

text \<open>
  The claim as it was stated fails on a record with an invalid ttl: the incoming version is
  higher, and the stored record is kept.
\<close>

theorem mergeKeyValues_higher_version_invalid_ttl_kept:
  "mergeKeyValues example_platform
       [''a'' \<mapsto> \<lparr>version = 1, originatorId = ''x'', value_opt = Some ''A'', ttl = 60000,
                  ttlVersion = 0, hash = None\<rparr>]
       [(''a'', \<lparr>version = 2, originatorId = ''x'', value_opt = Some ''B'', ttl = 0,
                 ttlVersion = 0, hash = None\<rparr>)] None
   = Inr ([''a'' \<mapsto> \<lparr>version = 1, originatorId = ''x'', value_opt = Some ''A'', ttl = 60000,
                  ttlVersion = 0, hash = None\<rparr>], Map.empty)"
  by (simp add: merge_eval)


text \<open>
  Claim C5. Over every sequence of \<^verbatim>\<open>mergeKeyValues\<close> calls on a store, the pair
  (version, originatorId) of the record stored under a key never decreases in the
  lexicographic order: version first, as a number, then originatorId, as a string. A key,
  once stored, stays stored.
\<close>

theorem mergeCalls_no_downgrade:
  "mergeCalls P kvStore calls = Inr kvStore' \<Longrightarrow> kvStore key = Some cur \<Longrightarrow>
     \<exists>new. kvStore' key = Some new
       \<and> (version cur, originatorId cur) \<le> (version new, originatorId new)"
proof (induction calls arbitrary: kvStore cur)
  case Nil
  then show ?case by auto
next
  case (Cons c cs)
  from Cons.prems(1) obtain r where
    m: "mergeKeyValues P kvStore (fst c) (snd c) = Inr r" and rest: "mergeCalls P (fst r) cs = Inr kvStore'"
    by (auto split: sum.splits)
  from mergeLoop_no_downgrade[OF m[unfolded mergeKeyValues_def], of key cur] Cons.prems(2)
  obtain mid where
    mid: "fst r key = Some mid" "(version cur, originatorId cur) \<le> (version mid, originatorId mid)"
    by auto
  from Cons.IH[OF rest mid(1)] obtain new where
    new: "kvStore' key = Some new" "(version mid, originatorId mid) \<le> (version new, originatorId new)"
    by blast
  from mid(2) new(2) have "(version cur, originatorId cur) \<le> (version new, originatorId new)"
    by (rule order_trans)
  with new(1) show ?case by blast
qed

theorem mergeCalls_no_downgrade_witness:
  "\<exists>kvStore' new.
     mergeCalls example_platform
       [''a'' \<mapsto> \<lparr>version = 2, originatorId = ''x'', value_opt = Some ''A'', ttl = 60000,
                  ttlVersion = 0, hash = None\<rparr>]
       [([(''a'', \<lparr>version = 3, originatorId = ''w'', value_opt = Some ''B'', ttl = 60000,
                   ttlVersion = 0, hash = None\<rparr>)], None),
        ([(''a'', \<lparr>version = 2, originatorId = ''z'', value_opt = Some ''C'', ttl = 60000,
                   ttlVersion = 0, hash = None\<rparr>)], None)] = Inr kvStore'
     \<and> kvStore' ''a'' = Some new
     \<and> (2, ''x'') \<le> (version new, originatorId new)"
proof -
  let ?cur = "\<lparr>version = 2, originatorId = ''x'', value_opt = Some ''A'', ttl = 60000,
                  ttlVersion = 0, hash = None\<rparr>"
  let ?calls = "[([(''a'', \<lparr>version = 3, originatorId = ''w'', value_opt = Some ''B'', ttl = 60000,
                   ttlVersion = 0, hash = None\<rparr>)], None),
        ([(''a'', \<lparr>version = 2, originatorId = ''z'', value_opt = Some ''C'', ttl = 60000,
                   ttlVersion = 0, hash = None\<rparr>)], None :: KvStoreFilters option)]"
  obtain s where r: "mergeCalls example_platform [''a'' \<mapsto> ?cur] ?calls = Inr s"
    by (simp add: merge_eval)
  from mergeCalls_no_downgrade[OF r, of "''a''" ?cur] r show ?thesis by auto
qed

text \<open>
  Claim C6. When, for each key of the batch, the store already holds a record with the
  same version, originatorId, value and ttlVersion, \<^verbatim>\<open>mergeKeyValues\<close> returns an empty delta
  and leaves the store as it is.
\<close>

theorem mergeKeyValues_idempotent:
  assumes "conforming (string_compare P)"
    and "\<forall>(k, v) \<in> set batch. \<exists>cur. kvStore k = Some cur \<and> version cur = version v
           \<and> originatorId cur = originatorId v \<and> value_opt cur = value_opt v
           \<and> ttlVersion cur = ttlVersion v"
  shows "mergeKeyValues P kvStore batch filters = Inr (kvStore, Map.empty)"
proof -
  have "mergeLoop P filters batch (kvStore, d) = Inr (kvStore, d)" for d
    using assms(2)
  proof (induction batch)
    case Nil
    then show ?case by simp
  next
    case (Cons x rest)
    obtain k v where x: "x = (k, v)" by (cases x)
    from Cons.prems x obtain cur where "kvStore k = Some cur" "version cur = version v"
      "originatorId cur = originatorId v" "value_opt cur = value_opt v"
      "ttlVersion cur = ttlVersion v" by auto
    from mergeStep_same[where s=kvStore and k=k, OF assms(1) this] have "mergeStep P filters x (kvStore, d) = Inr (kvStore, d)"
      by (simp add: x)
    moreover from Cons have "mergeLoop P filters rest (kvStore, d) = Inr (kvStore, d)" by simp
    ultimately show ?case by simp
  qed
  then show ?thesis by (simp add: mergeKeyValues_def)
qed

theorem mergeKeyValues_idempotent_witness:
  "mergeKeyValues example_platform
       [''a'' \<mapsto> \<lparr>version = 1, originatorId = ''x'', value_opt = Some ''A'', ttl = 60000,
                  ttlVersion = 3, hash = Some 0\<rparr>]
       [(''a'', \<lparr>version = 1, originatorId = ''x'', value_opt = Some ''A'', ttl = 60000,
                 ttlVersion = 3, hash = None\<rparr>)] None
     = Inr ([''a'' \<mapsto> \<lparr>version = 1, originatorId = ''x'', value_opt = Some ''A'', ttl = 60000,
                  ttlVersion = 3, hash = Some 0\<rparr>], Map.empty)"
  using mergeKeyValues_idempotent[OF conforming_example,
      of "[(''a'', \<lparr>version = 1, originatorId = ''x'', value_opt = Some ''A'', ttl = 60000,
                 ttlVersion = 3, hash = None\<rparr>)]"
         "[''a'' \<mapsto> \<lparr>version = 1, originatorId = ''x'', value_opt = Some ''A'', ttl = 60000,
                  ttlVersion = 3, hash = Some 0\<rparr>]" None]
  by simp

text \<open>
  Claim C8, as amended. Two batches with the same key-to-record pairs, one a permutation of
  the other (the keys of a batch are distinct, it being a map), merged into copies of one
  store: when the merge of one returns, the merge of the other returns too, with the same
  final store and the same delta; and a merge that fails in one order fails in the other.
  Both merges return, with identical final stores, whenever every record of the store
  carries a value and every incoming record that carries a value has version at least 1.
\<close>

theorem mergeKeyValues_permutation:
  assumes "distinct (map fst batch1)" and "mset batch1 = mset batch2"
  shows "(mergeKeyValues P kvStore batch1 filters = Inr r
            \<longrightarrow> mergeKeyValues P kvStore batch2 filters = Inr r)
       \<and> ((\<exists>f1. mergeKeyValues P kvStore batch1 filters = Inl f1)
            \<longrightarrow> (\<exists>f2. mergeKeyValues P kvStore batch2 filters = Inl f2))
       \<and> ((\<forall>(k, v) \<in> set batch1. value_opt v \<noteq> None \<longrightarrow> 1 \<le> version v)
            \<and> (\<forall>k cur. kvStore k = Some cur \<longrightarrow> value_opt cur \<noteq> None)
            \<longrightarrow> (\<exists>r'. mergeKeyValues P kvStore batch1 filters = Inr r'
                      \<and> mergeKeyValues P kvStore batch2 filters = Inr r'))"
proof -
  from assms(2) have "mset (map fst batch1) = mset (map fst batch2)" by (metis mset_map)
  with assms(1) have d2: "distinct (map fst batch2)" by (metis mset_eq_imp_distinct_iff)
  have fwd: "mergeKeyValues P kvStore batch2 filters = Inr x"
    if "mergeKeyValues P kvStore batch1 filters = Inr x" for x
    using mergeLoop_perm[OF assms that[unfolded mergeKeyValues_def]]
    by (simp add: mergeKeyValues_def)
  have bwd: "mergeKeyValues P kvStore batch1 filters = Inr x"
    if "mergeKeyValues P kvStore batch2 filters = Inr x" for x
    using mergeLoop_perm[OF d2 assms(2)[symmetric] that[unfolded mergeKeyValues_def]]
    by (simp add: mergeKeyValues_def)
  have fails: "\<exists>f2. mergeKeyValues P kvStore batch2 filters = Inl f2"
    if "\<exists>f1. mergeKeyValues P kvStore batch1 filters = Inl f1"
  proof (cases "mergeKeyValues P kvStore batch2 filters")
    case (Inl f2)
    then show ?thesis by blast
  next
    case (Inr x)
    from bwd[OF Inr] that show ?thesis by simp
  qed
  have both: "\<exists>r'. mergeKeyValues P kvStore batch1 filters = Inr r'
                      \<and> mergeKeyValues P kvStore batch2 filters = Inr r'"
    if "\<forall>(k, v) \<in> set batch1. value_opt v \<noteq> None \<longrightarrow> 1 \<le> version v"
      and "\<forall>k cur. kvStore k = Some cur \<longrightarrow> value_opt cur \<noteq> None"
  proof -
    from that have "\<exists>st'. mergeLoop P filters batch1 (kvStore, Map.empty) = Inr st'"
      by (intro mergeLoop_total) simp_all
    then obtain x where "mergeKeyValues P kvStore batch1 filters = Inr x"
      by (auto simp add: mergeKeyValues_def)
    with fwd[OF this] show ?thesis by blast
  qed
  from fwd fails both show ?thesis by blast
qed

theorem mergeKeyValues_permutation_witness:
  "\<exists>r. mergeKeyValues example_platform
       [''a'' \<mapsto> \<lparr>version = 1, originatorId = ''x'', value_opt = Some ''A'', ttl = 60000,
                  ttlVersion = 0, hash = None\<rparr>]
       [(''a'', \<lparr>version = 2, originatorId = ''x'', value_opt = Some ''B'', ttl = 60000,
                 ttlVersion = 0, hash = None\<rparr>),
        (''b'', \<lparr>version = 1, originatorId = ''y'', value_opt = Some ''C'', ttl = 60000,
                 ttlVersion = 0, hash = None\<rparr>)] None = Inr r
     \<and> mergeKeyValues example_platform
       [''a'' \<mapsto> \<lparr>version = 1, originatorId = ''x'', value_opt = Some ''A'', ttl = 60000,
                  ttlVersion = 0, hash = None\<rparr>]
       [(''b'', \<lparr>version = 1, originatorId = ''y'', value_opt = Some ''C'', ttl = 60000,
                 ttlVersion = 0, hash = None\<rparr>),
        (''a'', \<lparr>version = 2, originatorId = ''x'', value_opt = Some ''B'', ttl = 60000,
                 ttlVersion = 0, hash = None\<rparr>)] None = Inr r"
proof -
  let ?s = "[''a'' \<mapsto> \<lparr>version = 1, originatorId = ''x'', value_opt = Some ''A'', ttl = 60000,
                  ttlVersion = 0, hash = None\<rparr>]"
  let ?a = "(''a'', \<lparr>version = 2, originatorId = ''x'', value_opt = Some ''B'', ttl = 60000,
                 ttlVersion = 0, hash = None\<rparr>)"
  let ?b = "(''b'', \<lparr>version = 1, originatorId = ''y'', value_opt = Some ''C'', ttl = 60000,
                 ttlVersion = 0, hash = None\<rparr>)"
  have d: "distinct (map fst [?a, ?b])" by simp
  have m: "mset [?a, ?b] = mset [?b, ?a]" by (simp add: add_mset_commute)
  have v: "\<forall>(k, v) \<in> set [?a, ?b]. value_opt v \<noteq> None \<longrightarrow> 1 \<le> version v" by simp
  have i: "\<forall>k cur. ?s k = Some cur \<longrightarrow> value_opt cur \<noteq> None" by auto
  from mergeKeyValues_permutation[OF d m, of example_platform ?s None] v i
  show ?thesis by blast
qed

text \<open>
  The claim as it was stated fails on a store that holds a record without a value: the
  merge throws at the value comparison in both orders, and the store the caller is left
  with has the key \<open>b\<close> in one order and not in the other.
\<close>

theorem mergeKeyValues_store_after_throw_depends_on_order:
  "\<exists>s1 s2.
     mergeKeyValues example_platform
       [''a'' \<mapsto> \<lparr>version = 1, originatorId = ''x'', value_opt = None, ttl = 60000,
                  ttlVersion = 0, hash = Some 7\<rparr>]
       [(''a'', \<lparr>version = 1, originatorId = ''x'', value_opt = Some ''A'', ttl = 60000,
                 ttlVersion = 0, hash = None\<rparr>),
        (''b'', \<lparr>version = 2, originatorId = ''y'', value_opt = Some ''C'', ttl = 60000,
                 ttlVersion = 0, hash = None\<rparr>)] None = Inl (BadFieldAccess, s1)
     \<and> mergeKeyValues example_platform
       [''a'' \<mapsto> \<lparr>version = 1, originatorId = ''x'', value_opt = None, ttl = 60000,
                  ttlVersion = 0, hash = Some 7\<rparr>]
       [(''b'', \<lparr>version = 2, originatorId = ''y'', value_opt = Some ''C'', ttl = 60000,
                 ttlVersion = 0, hash = None\<rparr>),
        (''a'', \<lparr>version = 1, originatorId = ''x'', value_opt = Some ''A'', ttl = 60000,
                 ttlVersion = 0, hash = None\<rparr>)] None = Inl (BadFieldAccess, s2)
     \<and> s1 ''b'' = None
     \<and> s2 ''b'' = Some \<lparr>version = 2, originatorId = ''y'', value_opt = Some ''C'', ttl = 60000,
                 ttlVersion = 0, hash = Some 0\<rparr>"
  by (simp add: merge_eval)

text \<open>
  Claim C10, as amended. An incoming record with a value and version 0, admitted by the
  filter and with a valid ttl, for a key absent from the store, makes the equal-version
  branch read the originatorId through \<^verbatim>\<open>kvStoreIt\<close> when it is \<^verbatim>\<open>kvStore.end()\<close>. When every
  incoming record that carries a value has version at least 1, that branch is reached only
  with a valid iterator; and when, besides, every record of the store carries a value, the
  merge is total.
\<close>

theorem mergeKeyValues_version_zero:
  "(kvStore key = None \<and> value_opt inc \<noteq> None \<and> version inc = 0
      \<and> (case filters of None \<Rightarrow> True | Some f \<Rightarrow> keyMatch P f key inc)
      \<and> (ttl inc = kTtlInfinity P \<or> 0 < ttl inc)
    \<longrightarrow> mergeKeyValues P kvStore [(key, inc)] filters = Inl (InvalidIterator, kvStore))
   \<and> ((\<forall>(k, v) \<in> set batch. value_opt v \<noteq> None \<longrightarrow> 1 \<le> version v)
    \<longrightarrow> (\<forall>s. mergeKeyValues P kvStore batch filters \<noteq> Inl (InvalidIterator, s))
      \<and> ((\<forall>k cur. kvStore k = Some cur \<longrightarrow> value_opt cur \<noteq> None)
         \<longrightarrow> (\<exists>r. mergeKeyValues P kvStore batch filters = Inr r)))"
proof (intro conjI impI allI)
  assume "kvStore key = None \<and> value_opt inc \<noteq> None \<and> version inc = 0
      \<and> (case filters of None \<Rightarrow> True | Some f \<Rightarrow> keyMatch P f key inc)
      \<and> (ttl inc = kTtlInfinity P \<or> 0 < ttl inc)"
  then have "mergeStep P filters (key, inc) (kvStore, Map.empty) = Inl InvalidIterator"
    by (intro mergeStep_version_zero) simp_all
  then show "mergeKeyValues P kvStore [(key, inc)] filters = Inl (InvalidIterator, kvStore)"
    by (simp add: mergeKeyValues_def)
next
  fix s
  assume "\<forall>(k, v) \<in> set batch. value_opt v \<noteq> None \<longrightarrow> 1 \<le> version v"
  then show "mergeKeyValues P kvStore batch filters \<noteq> Inl (InvalidIterator, s)"
    unfolding mergeKeyValues_def by (rule mergeLoop_not_invalid)
next
  assume "\<forall>(k, v) \<in> set batch. value_opt v \<noteq> None \<longrightarrow> 1 \<le> version v"
    and "\<forall>k cur. kvStore k = Some cur \<longrightarrow> value_opt cur \<noteq> None"
  then show "\<exists>r. mergeKeyValues P kvStore batch filters = Inr r"
    unfolding mergeKeyValues_def by (intro mergeLoop_total) simp_all
qed

theorem mergeKeyValues_version_zero_witness:
  "mergeKeyValues example_platform Map.empty
     [(''a'', \<lparr>version = 0, originatorId = ''x'', value_opt = Some ''A'', ttl = 60000,
               ttlVersion = 0, hash = None\<rparr>)] None = Inl (InvalidIterator, Map.empty)
   \<and> (\<forall>s. mergeKeyValues example_platform Map.empty
     [(''a'', \<lparr>version = 1, originatorId = ''x'', value_opt = Some ''A'', ttl = 60000,
               ttlVersion = 0, hash = None\<rparr>)] None \<noteq> Inl (InvalidIterator, s))
   \<and> (\<exists>r. mergeKeyValues example_platform Map.empty
     [(''a'', \<lparr>version = 1, originatorId = ''x'', value_opt = Some ''A'', ttl = 60000,
               ttlVersion = 0, hash = None\<rparr>)] None = Inr r)"
  using mergeKeyValues_version_zero[where kvStore=Map.empty and key="''a''"
      and inc="\<lparr>version = 0, originatorId = ''x'', value_opt = Some ''A'', ttl = 60000,
               ttlVersion = 0, hash = None\<rparr>" and filters=None and P=example_platform
      and batch="[(''a'', \<lparr>version = 1, originatorId = ''x'', value_opt = Some ''A'', ttl = 60000,
               ttlVersion = 0, hash = None\<rparr>)]"]
  by (simp add: example_platform_def)

text \<open>
  The precondition on the incoming versions alone does not make the merge total: against a
  stored record without a value, the value comparison dereferences an unset optional field.
\<close>

theorem mergeKeyValues_stored_without_value_throws:
  "mergeKeyValues example_platform
     [''a'' \<mapsto> \<lparr>version = 1, originatorId = ''x'', value_opt = None, ttl = 60000,
                ttlVersion = 0, hash = Some 7\<rparr>]
     [(''a'', \<lparr>version = 1, originatorId = ''x'', value_opt = Some ''A'', ttl = 60000,
               ttlVersion = 0, hash = None\<rparr>)] None
   = Inl (BadFieldAccess,
          [''a'' \<mapsto> \<lparr>version = 1, originatorId = ''x'', value_opt = None, ttl = 60000,
                ttlVersion = 0, hash = Some 7\<rparr>])"
  by (simp add: merge_eval)


section \<open>Claims about filters, comparison, difference and configuration\<close>

text \<open>
  Claim C7. \<^verbatim>\<open>KvStoreFilters::keyMatch\<close> returns true whenever both the list of key prefixes
  and the set of originators are empty. Otherwise, with the operator \<^verbatim>\<open>OR\<close> (the spec's ANY)
  it returns true iff the key matches some prefix pattern or the originatorId of the record
  is in the set of originators. With the operator \<^verbatim>\<open>AND\<close> (the spec's ALL) it returns true
  iff (the prefix list is empty or the key matches a pattern) and (the set of originators
  is empty or the originatorId is in it).
\<close>

theorem keyMatch_semantics:
  "(keyPrefixList f = [] \<and> originatorIds f = {} \<longrightarrow> keyMatch P f key value)
   \<and> (filterOperator f = OR \<and> \<not> (keyPrefixList f = [] \<and> originatorIds f = {}) \<longrightarrow>
        keyMatch P f key value =
          ((\<exists>p \<in> set (keyPrefixList f). regex_match P p key)
           \<or> originatorId value \<in> originatorIds f))
   \<and> (filterOperator f = AND \<longrightarrow>
        keyMatch P f key value =
          ((keyPrefixList f = [] \<or> (\<exists>p \<in> set (keyPrefixList f). regex_match P p key))
           \<and> (originatorIds f = {} \<or> originatorId value \<in> originatorIds f)))"
  by (auto simp add: keyMatch_def keyMatchAny_def keyMatchAll_def RegexSet_match_def list_ex_iff)

theorem keyMatch_semantics_witness:
  "keyMatch example_platform \<lparr>keyPrefixList = [], originatorIds = {}, filterOperator = OR\<rparr> ''adj:n1''
      \<lparr>version = 1, originatorId = ''n1'', value_opt = Some ''A'', ttl = 60000, ttlVersion = 0, hash = None\<rparr>
   \<and> keyMatch example_platform
      \<lparr>keyPrefixList = [''adj:''], originatorIds = {''n2''}, filterOperator = OR\<rparr> ''adj:n1''
      \<lparr>version = 1, originatorId = ''n1'', value_opt = Some ''A'', ttl = 60000, ttlVersion = 0, hash = None\<rparr>
   \<and> \<not> keyMatch example_platform
      \<lparr>keyPrefixList = [''adj:''], originatorIds = {''n2''}, filterOperator = AND\<rparr> ''adj:n1''
      \<lparr>version = 1, originatorId = ''n1'', value_opt = Some ''A'', ttl = 60000, ttlVersion = 0, hash = None\<rparr>"
  using
    keyMatch_semantics[of "\<lparr>keyPrefixList = [], originatorIds = {}, filterOperator = OR\<rparr>"
      example_platform "''adj:n1''"
      "\<lparr>version = 1, originatorId = ''n1'', value_opt = Some ''A'', ttl = 60000, ttlVersion = 0, hash = None\<rparr>"]
    keyMatch_semantics[of "\<lparr>keyPrefixList = [''adj:''], originatorIds = {''n2''}, filterOperator = OR\<rparr>"
      example_platform "''adj:n1''"
      "\<lparr>version = 1, originatorId = ''n1'', value_opt = Some ''A'', ttl = 60000, ttlVersion = 0, hash = None\<rparr>"]
    keyMatch_semantics[of "\<lparr>keyPrefixList = [''adj:''], originatorIds = {''n2''}, filterOperator = AND\<rparr>"
      example_platform "''adj:n1''"
      "\<lparr>version = 1, originatorId = ''n1'', value_opt = Some ''A'', ttl = 60000, ttlVersion = 0, hash = None\<rparr>"]
  by (simp add: example_platform_def)

text \<open>
  Claim C3. \<^verbatim>\<open>dumpDifference(area, mine, theirs)\<close> puts a key present only in \<open>mine\<close> into
  \<^verbatim>\<open>keyVals\<close> (with the record of \<open>mine\<close>) and not into \<^verbatim>\<open>tobeUpdatedKeys\<close>, a key present only
  in \<open>theirs\<close> into \<^verbatim>\<open>tobeUpdatedKeys\<close> and not into \<^verbatim>\<open>keyVals\<close>, and a key of both, with
  \<open>c = compareValues(mine[key], theirs[key])\<close>, into \<^verbatim>\<open>keyVals\<close> exactly when \<open>c\<close> is 1 or -2
  and into \<^verbatim>\<open>tobeUpdatedKeys\<close> exactly when \<open>c\<close> is -1 or -2: into \<^verbatim>\<open>keyVals\<close> alone for 1,
  \<^verbatim>\<open>tobeUpdatedKeys\<close> alone for -1, neither for 0, both for -2. A key of neither map is in
  neither.
\<close>

theorem dumpDifference_placement:
  "\<exists>l. tobeUpdatedKeys (dumpDifference P a mine theirs) = Some l \<and>
     (case map_of mine key of
        None \<Rightarrow>
          keyVals (dumpDifference P a mine theirs) key = None
          \<and> (key \<in> set l) = (map_of theirs key \<noteq> None)
      | Some myVal \<Rightarrow>
          (case map_of theirs key of
             None \<Rightarrow> keyVals (dumpDifference P a mine theirs) key = Some myVal \<and> key \<notin> set l
           | Some reqVal \<Rightarrow>
               keyVals (dumpDifference P a mine theirs) key =
                 (if compareValues P myVal reqVal = 1 \<or> compareValues P myVal reqVal = - 2
                  then Some myVal else None)
               \<and> (key \<in> set l) =
                   (compareValues P myVal reqVal = - 1 \<or> compareValues P myVal reqVal = - 2)))"
proof -
  let ?ks = "remdups (map fst mine @ map fst theirs)"
  let ?pub0 = "\<lparr>area = a, keyVals = Map.empty, tobeUpdatedKeys = Some []\<rparr>"
  have mem: "(k \<in> fst ` set mine) = (map_of mine k \<noteq> None)"
    "(k \<in> fst ` set theirs) = (map_of theirs k \<noteq> None)" for k
    by (simp_all add: map_of_eq_None_iff)
  from fold_dumpStep_tobeUpdatedKeys[of ?pub0 "[]" P "map_of mine" "map_of theirs" ?ks]
  obtain l where l: "tobeUpdatedKeys (dumpDifference P a mine theirs) = Some l"
    and ml: "\<And>key. (key \<in> set l) =
              (key \<in> set ?ks \<and>
                 (case map_of mine key of
                    None \<Rightarrow> True
                  | Some m \<Rightarrow>
                      (case map_of theirs key of
                         None \<Rightarrow> False
                       | Some r \<Rightarrow> compareValues P m r = - 1 \<or> compareValues P m r = - 2)))"
    by (auto simp add: dumpDifference_def Let_def)
  have kv: "keyVals (dumpDifference P a mine theirs) key =
      (if key \<in> set ?ks then
            (case map_of mine key of
               None \<Rightarrow> None
             | Some m \<Rightarrow>
                 (case map_of theirs key of
                    None \<Rightarrow> Some m
                  | Some r \<Rightarrow>
                      if compareValues P m r = 1 \<or> compareValues P m r = - 2 then Some m else None))
          else None)"
    by (simp add: dumpDifference_def Let_def fold_dumpStep_keyVals)
  show ?thesis
    unfolding kv by (rule exI[of _ l]) (auto simp add: l ml mem split: option.split)
qed

theorem dumpDifference_placement_witness:
  "\<exists>l. tobeUpdatedKeys (dumpDifference example_platform ''0''
          [(''a'', \<lparr>version = 2, originatorId = ''x'', value_opt = Some ''X'', ttl = 60000,
                    ttlVersion = 0, hash = None\<rparr>),
           (''b'', \<lparr>version = 1, originatorId = ''x'', value_opt = Some ''Y'', ttl = 60000,
                    ttlVersion = 0, hash = None\<rparr>)]
          [(''a'', \<lparr>version = 1, originatorId = ''x'', value_opt = Some ''X'', ttl = 60000,
                    ttlVersion = 0, hash = None\<rparr>),
           (''c'', \<lparr>version = 1, originatorId = ''x'', value_opt = Some ''Z'', ttl = 60000,
                    ttlVersion = 0, hash = None\<rparr>)]) = Some l
     \<and> keyVals (dumpDifference example_platform ''0''
          [(''a'', \<lparr>version = 2, originatorId = ''x'', value_opt = Some ''X'', ttl = 60000,
                    ttlVersion = 0, hash = None\<rparr>),
           (''b'', \<lparr>version = 1, originatorId = ''x'', value_opt = Some ''Y'', ttl = 60000,
                    ttlVersion = 0, hash = None\<rparr>)]
          [(''a'', \<lparr>version = 1, originatorId = ''x'', value_opt = Some ''X'', ttl = 60000,
                    ttlVersion = 0, hash = None\<rparr>),
           (''c'', \<lparr>version = 1, originatorId = ''x'', value_opt = Some ''Z'', ttl = 60000,
                    ttlVersion = 0, hash = None\<rparr>)]) ''a''
         = Some \<lparr>version = 2, originatorId = ''x'', value_opt = Some ''X'', ttl = 60000,
                    ttlVersion = 0, hash = None\<rparr>
     \<and> ''a'' \<notin> set l"
  using dumpDifference_placement[of example_platform "''0''"
      "[(''a'', \<lparr>version = 2, originatorId = ''x'', value_opt = Some ''X'', ttl = 60000,
                    ttlVersion = 0, hash = None\<rparr>),
           (''b'', \<lparr>version = 1, originatorId = ''x'', value_opt = Some ''Y'', ttl = 60000,
                    ttlVersion = 0, hash = None\<rparr>)]"
      "[(''a'', \<lparr>version = 1, originatorId = ''x'', value_opt = Some ''X'', ttl = 60000,
                    ttlVersion = 0, hash = None\<rparr>),
           (''c'', \<lparr>version = 1, originatorId = ''x'', value_opt = Some ''Z'', ttl = 60000,
                    ttlVersion = 0, hash = None\<rparr>)]" "''a''"]
  by (simp add: compareValues_def)

text \<open>
  Claim C9. Constructing a \<^verbatim>\<open>Config\<close> whose kvstore flood rate has \<^verbatim>\<open>flood_msg_per_sec\<close> \<open>\<le> 0\<close>
  or \<^verbatim>\<open>flood_msg_burst_size\<close> \<open>\<le> 0\<close> fails with \<^verbatim>\<open>std::out_of_range\<close>, and no \<^verbatim>\<open>Config\<close> is
  produced, whenever the rest of the configuration is valid.
\<close>

theorem Config_rejects_flood_rate:
  assumes "otherChecks c = Inr ()"
    and "flood_rate (kvstore_config c) = Some floodRate"
    and "flood_msg_per_sec floodRate \<le> 0 \<or> flood_msg_burst_size floodRate \<le> 0"
  shows "Config otherChecks c = Inl out_of_range"
  using assms by (auto simp add: Config_def checkKvStoreConfig_def)

theorem Config_rejects_flood_rate_witness:
  "Config (\<lambda>c. Inr ())
     \<lparr>node_name = ''node-1'',
      kvstore_config = \<lparr>flood_rate = Some \<lparr>flood_msg_per_sec = 0, flood_msg_burst_size = 1\<rparr>\<rparr>\<rparr>
   = Inl out_of_range"
  using Config_rejects_flood_rate[of "\<lambda>c. Inr ()"
      "\<lparr>node_name = ''node-1'',
        kvstore_config = \<lparr>flood_rate = Some \<lparr>flood_msg_per_sec = 0, flood_msg_burst_size = 1\<rparr>\<rparr>\<rparr>"
      "\<lparr>flood_msg_per_sec = 0, flood_msg_burst_size = 1\<rparr>"]
  by simp

text \<open>
  For two records with the same version and originatorId whose hashes cannot settle the
  comparison and that both carry a value, the sign of \<^verbatim>\<open>compareValues\<close> is the sign of the
  lexicographic comparison of the values, whatever \<^verbatim>\<open>std::string::compare\<close> the platform
  has; the magnitude is the one that \<^verbatim>\<open>compare\<close> returns.
\<close>

lemma compareValues_sign:
  assumes "conforming (string_compare P)"
    and "version a = version b" and "originatorId a = originatorId b"
    and "hash a = None \<or> hash b = None \<or> hash a \<noteq> hash b"
    and "value_opt a = Some x" and "value_opt b = Some y"
  shows "(compareValues P a b < 0) = (x < y) \<and> (compareValues P a b = 0) = (x = y)
       \<and> (0 < compareValues P a b) = (y < x)"
proof -
  from assms(2-6) have "compareValues P a b = string_compare P x y"
    by (auto simp add: compareValues_def)
  with assms(1) show ?thesis by (simp add: conforming_def)
qed

text \<open>
  Claim C2 asks for a result in \<open>{-2, -1, 0, 1}\<close>, with the sign of the lexicographic
  comparison in the last case. \<^verbatim>\<open>compareValues\<close> returns there what \<^verbatim>\<open>std::string::compare\<close>
  returns: with the GNU library, the values \<^verbatim>\<open>"a"\<close> and \<^verbatim>\<open>"abcd"\<close> give -3, and \<^verbatim>\<open>"a"\<close> and
  \<^verbatim>\<open>"abc"\<close> give -2, the result that stands for an unknown order.
\<close>

theorem compareValues_raw_compare_result:
  "compareValues example_platform
     \<lparr>version = 1, originatorId = ''x'', value_opt = Some ''a'', ttl = 60000, ttlVersion = 0, hash = None\<rparr>
     \<lparr>version = 1, originatorId = ''x'', value_opt = Some ''abcd'', ttl = 60000, ttlVersion = 0, hash = None\<rparr>
   = - 3
   \<and> compareValues example_platform
     \<lparr>version = 1, originatorId = ''x'', value_opt = Some ''a'', ttl = 60000, ttlVersion = 0, hash = None\<rparr>
     \<lparr>version = 1, originatorId = ''x'', value_opt = Some ''abc'', ttl = 60000, ttlVersion = 0, hash = None\<rparr>
   = - 2"
  by (simp add: compareValues_def example_platform_def gnu_compare_def S_compare_def)

text \<open>
  With the result -3, \<^verbatim>\<open>dumpDifference\<close> puts the key into neither \<^verbatim>\<open>keyVals\<close> nor
  \<^verbatim>\<open>tobeUpdatedKeys\<close>, although the two records differ.
\<close>

lemma dumpDifference_raw_compare_result:
  "dumpDifference example_platform ''0''
     [(''k'', \<lparr>version = 1, originatorId = ''x'', value_opt = Some ''a'', ttl = 60000, ttlVersion = 0, hash = None\<rparr>)]
     [(''k'', \<lparr>version = 1, originatorId = ''x'', value_opt = Some ''abcd'', ttl = 60000, ttlVersion = 0, hash = None\<rparr>)]
   = \<lparr>area = ''0'', keyVals = Map.empty, tobeUpdatedKeys = Some []\<rparr>"
  by (simp add: dumpDifference_def dumpStep_def compareValues_def example_platform_def
      gnu_compare_def S_compare_def)

end
